theory Spec2Isabelle
  imports Complex_Main
begin

section \<open>The rate limiter of \<open>rate_limiter.py\<close>\<close>

text \<open>
  The limiter keeps two sliding windows of grant timestamps, each a deque. Timestamps
  are the values of \<open>time.monotonic()\<close>; they are modelled as real numbers, so the
  rounding of floating-point arithmetic is not part of the model. The configured limits
  are Python integers, hence unbounded.
\<close>

datatype error = IndexError | ValueError

record RateLimiter =
  messages_per_second :: int
  messages_per_minute :: int
  second_window :: "real list"
  minute_window :: "real list"

subsection \<open>The constructor\<close>

text \<open>
  \<open>int(s)\<close> on a string, for ASCII input: surrounding whitespace (tab, line feed,
  vertical tab, form feed, carriage return, space) is stripped, one sign is allowed, and
  the digits may be separated by single underscores. Anything else raises \<open>ValueError\<close>,
  and so does a literal of more than 4300 digits, the default limit of the interpreter.
\<close>

definition is_space :: "char \<Rightarrow> bool" where
  "is_space c = (let n = (of_char c :: nat) in (9 \<le> n \<and> n \<le> 13) \<or> n = 32)"

definition is_digit :: "char \<Rightarrow> bool" where
  "is_digit c = (let n = (of_char c :: nat) in 48 \<le> n \<and> n \<le> 57)"

definition digit_value :: "char \<Rightarrow> int" where
  "digit_value c = int (of_char c) - 48"

definition strip :: "string \<Rightarrow> string" where
  "strip s = rev (dropWhile is_space (rev (dropWhile is_space s)))"

fun py_digits :: "string \<Rightarrow> int \<Rightarrow> int option" where
  "py_digits [] acc = Some acc"
| "py_digits (c # cs) acc =
     (if is_digit c then py_digits cs (10 * acc + digit_value c)
      else if c = CHR ''_'' \<and> cs \<noteq> [] \<and> is_digit (hd cs) then py_digits cs acc
      else None)"

definition max_str_digits :: nat where
  "max_str_digits = 4300"

definition py_unsigned :: "string \<Rightarrow> error + int" where
  "py_unsigned s =
     (case s of
        [] \<Rightarrow> Inl ValueError
      | c # cs \<Rightarrow>
          if is_digit c
          then (case py_digits s 0 of
                  None \<Rightarrow> Inl ValueError
                | Some n \<Rightarrow>
                    if max_str_digits < length (filter is_digit s) then Inl ValueError
                    else Inr n)
          else Inl ValueError)"

definition py_int :: "string \<Rightarrow> error + int" where
  "py_int s =
     (case strip s of
        [] \<Rightarrow> Inl ValueError
      | c # cs \<Rightarrow>
          if c = CHR ''-'' then (case py_unsigned cs of Inl e \<Rightarrow> Inl e | Inr n \<Rightarrow> Inr (- n))
          else if c = CHR ''+'' then py_unsigned cs
          else py_unsigned (c # cs))"

text \<open>\<open>os.getenv(name, default)\<close> over an environment given as a map.\<close>

definition getenv :: "(string \<rightharpoonup> string) \<Rightarrow> string \<Rightarrow> string \<Rightarrow> string" where
  "getenv env name dflt = (case env name of None \<Rightarrow> dflt | Some v \<Rightarrow> v)"

text \<open>
  \<open>arg or fallback\<close> for an argument of type \<open>int | None\<close>: \<open>None\<close> and \<open>0\<close> are
  falsy, every other integer is kept.
\<close>

fun py_or :: "int option \<Rightarrow> (error + int) \<Rightarrow> error + int" where
  "py_or None fallback = fallback"
| "py_or (Some n) fallback = (if n \<noteq> 0 then Inr n else fallback)"

definition init :: "int option \<Rightarrow> int option \<Rightarrow> (string \<rightharpoonup> string) \<Rightarrow> error + RateLimiter" where
  "init mps mpm env =
     (case py_or mps (py_int (getenv env ''RATE_LIMIT_MESSAGES_PER_SECOND'' ''10'')) of
        Inl e \<Rightarrow> Inl e
      | Inr a \<Rightarrow>
          (case py_or mpm (py_int (getenv env ''RATE_LIMIT_MESSAGES_PER_MINUTE'' ''100'')) of
             Inl e \<Rightarrow> Inl e
           | Inr b \<Rightarrow>
               Inr \<lparr>messages_per_second = a, messages_per_minute = b,
                    second_window = [], minute_window = []\<rparr>))"

subsection \<open>Trimming the windows\<close>

text \<open>
  Each \<open>while\<close> loop of \<open>_clean_windows\<close> pops the head of a deque as long as the deque
  is not empty and its head is at or below the horizon.
\<close>

fun pop_expired :: "real \<Rightarrow> real list \<Rightarrow> real list" where
  "pop_expired horizon [] = []"
| "pop_expired horizon (t # ts) = (if t \<le> horizon then pop_expired horizon ts else t # ts)"

definition clean_windows :: "real \<Rightarrow> RateLimiter \<Rightarrow> RateLimiter" where
  "clean_windows now s =
     s\<lparr>second_window := pop_expired (now - 1) (second_window s),
       minute_window := pop_expired (now - 60) (minute_window s)\<rparr>"

subsection \<open>One pass of the loop of \<open>acquire\<close>\<close>

text \<open>
  A pass reads the clock, trims, and either admits the caller (the method returns),
  or computes a wait and sleeps before the next pass. Reading the head of an empty deque
  raises \<open>IndexError\<close>; the trimming done before stays in the object.
\<close>

datatype outcome = Admitted | Sleep real | Raised error

definition per_second_ok :: "RateLimiter \<Rightarrow> bool" where
  "per_second_ok s = (int (length (second_window s)) < messages_per_second s)"

definition per_minute_ok :: "RateLimiter \<Rightarrow> bool" where
  "per_minute_ok s = (int (length (minute_window s)) < messages_per_minute s)"

definition head :: "real list \<Rightarrow> error + real" where
  "head w = (case w of [] \<Rightarrow> Inl IndexError | t # _ \<Rightarrow> Inr t)"

definition compute_wait :: "real \<Rightarrow> RateLimiter \<Rightarrow> error + real" where
  "compute_wait now s =
     (case (if \<not> per_second_ok s
            then (case head (second_window s) of
                    Inl e \<Rightarrow> Inl e
                  | Inr t \<Rightarrow> Inr (max 0 (t + 1 - now)))
            else Inr 0) of
        Inl e \<Rightarrow> Inl e
      | Inr wait \<Rightarrow>
          if \<not> per_minute_ok s
          then (case head (minute_window s) of
                  Inl e \<Rightarrow> Inl e
                | Inr t \<Rightarrow> Inr (max wait (t + 60 - now)))
          else Inr wait)"

definition acquire_pass :: "real \<Rightarrow> RateLimiter \<Rightarrow> outcome \<times> RateLimiter" where
  "acquire_pass now s0 =
     (let s = clean_windows now s0 in
      if per_second_ok s \<and> per_minute_ok s
      then (Admitted, s\<lparr>second_window := second_window s @ [now],
                        minute_window := minute_window s @ [now]\<rparr>)
      else (case compute_wait now s of
              Inl e \<Rightarrow> (Raised e, s)
            | Inr wait \<Rightarrow> (Sleep wait, s)))"

text \<open>
  The whole call, run alone: the list holds the clock readings of the successive passes.
  The result is \<open>None\<close> when the readings run out before the call returns; otherwise it
  is the list of waits slept, or the exception raised, with the limiter as left behind.
\<close>

fun acquire :: "real list \<Rightarrow> RateLimiter \<Rightarrow> ((error + real list) \<times> RateLimiter) option" where
  "acquire [] s = None"
| "acquire (now # clock) s =
     (case acquire_pass now s of
        (Admitted, s') \<Rightarrow> Some (Inr [], s')
      | (Raised e, s') \<Rightarrow> Some (Inl e, s')
      | (Sleep wait, s') \<Rightarrow>
          (case acquire clock s' of
             None \<Rightarrow> None
           | Some (Inl e, s'') \<Rightarrow> Some (Inl e, s'')
           | Some (Inr waits, s'') \<Rightarrow> Some (Inr (wait # waits), s'')))"

subsection \<open>The count properties\<close>

definition current_second_count :: "real \<Rightarrow> RateLimiter \<Rightarrow> nat \<times> RateLimiter" where
  "current_second_count now s0 =
     (let s = clean_windows now s0 in (length (second_window s), s))"

definition current_minute_count :: "real \<Rightarrow> RateLimiter \<Rightarrow> nat \<times> RateLimiter" where
  "current_minute_count now s0 =
     (let s = clean_windows now s0 in (length (minute_window s), s))"

subsection \<open>Calls interleaved on one limiter\<close>

text \<open>
  Between two suspension points a coroutine runs alone, so the limiter sees a sequence
  of uninterrupted steps, each with the clock reading it starts from: one pass of the
  loop of some \<open>acquire\<close> call, or one evaluation of a count property. A call of
  \<open>acquire\<close> that has to wait contributes several passes, and passes of other callers
  may come in between.
\<close>

datatype call = Acquire_pass | Second_count | Minute_count

datatype reply = Outcome outcome | Count nat

fun perform :: "call \<Rightarrow> real \<Rightarrow> RateLimiter \<Rightarrow> reply \<times> RateLimiter" where
  "perform Acquire_pass now s = (case acquire_pass now s of (r, s') \<Rightarrow> (Outcome r, s'))"
| "perform Second_count now s = (case current_second_count now s of (n, s') \<Rightarrow> (Count n, s'))"
| "perform Minute_count now s = (case current_minute_count now s of (n, s') \<Rightarrow> (Count n, s'))"

fun run :: "(call \<times> real) list \<Rightarrow> RateLimiter \<Rightarrow> reply list \<times> RateLimiter" where
  "run [] s = ([], s)"
| "run ((c, now) # cs) s =
     (case perform c now s of
        (r, s') \<Rightarrow> (case run cs s' of (rs, s'') \<Rightarrow> (r # rs, s'')))"

text \<open>The timestamps of the grants of a run: the clock readings of the admitted passes.\<close>

fun granted :: "(call \<times> real) list \<Rightarrow> reply list \<Rightarrow> real list" where
  "granted ((c, now) # cs) (r # rs) =
     (if r = Outcome Admitted then now # granted cs rs else granted cs rs)"
| "granted cs rs = []"

subsection \<open>The wait as the specification words it\<close>

text \<open>
  The larger of the waits of the windows that are full: the oldest entry of the second
  window plus one second, the oldest entry of the minute window plus sixty seconds, each
  minus the current time.
\<close>

definition spec_wait :: "real \<Rightarrow> RateLimiter \<Rightarrow> real" where
  "spec_wait now s =
     (if \<not> per_second_ok s \<and> \<not> per_minute_ok s
      then max (hd (second_window s) + 1 - now) (hd (minute_window s) + 60 - now)
      else if \<not> per_second_ok s then hd (second_window s) + 1 - now
      else hd (minute_window s) + 60 - now)"

subsection \<open>The lock\<close>

text \<open>
  What each method does to the lock and to the windows, in program order. \<open>acquire\<close>
  enters \<open>async with self._lock\<close>, and every pass trims, reads the two lengths, and then
  either appends and leaves the \<open>with\<close> block, or reads the heads, releases the lock,
  sleeps and takes the lock again. An exception leaves the \<open>with\<close> block as a return
  does. The count properties are plain synchronous properties: they trim and read a
  length.
\<close>

datatype effect = Lock_acquire | Lock_release | Window_access | Suspend

fun passes_effects :: "real list \<Rightarrow> RateLimiter \<Rightarrow> effect list" where
  "passes_effects [] s = []"
| "passes_effects (now # clock) s =
     Window_access # Window_access #
     (case acquire_pass now s of
        (Admitted, s') \<Rightarrow> [Window_access, Lock_release]
      | (Raised e, s') \<Rightarrow> [Window_access, Lock_release]
      | (Sleep wait, s') \<Rightarrow>
          Window_access # Lock_release # Suspend # Lock_acquire # passes_effects clock s')"

definition acquire_effects :: "real list \<Rightarrow> RateLimiter \<Rightarrow> effect list" where
  "acquire_effects clock s = Lock_acquire # passes_effects clock s"

definition current_second_count_effects :: "effect list" where
  "current_second_count_effects = [Window_access, Window_access]"

definition current_minute_count_effects :: "effect list" where
  "current_minute_count_effects = [Window_access, Window_access]"

text \<open>
  A trace keeps the lock discipline when the lock is taken only while free, released
  only while held, every access to a window happens while it is held, and no suspension
  happens while it is held.
\<close>

fun guarded :: "bool \<Rightarrow> effect list \<Rightarrow> bool" where
  "guarded held [] = True"
| "guarded held (Lock_acquire # es) = (\<not> held \<and> guarded True es)"
| "guarded held (Lock_release # es) = (held \<and> guarded False es)"
| "guarded held (Window_access # es) = (held \<and> guarded held es)"
| "guarded held (Suspend # es) = (\<not> held \<and> guarded held es)"

subsection \<open>Invariants of a run\<close>

text \<open>
  The windows follow a history of grants at a given time when the history is in
  non-decreasing order and not later than that time, and each window holds exactly the
  grants newer than its horizon. The windows are bounded when neither holds more entries
  than its limit.
\<close>

definition tracks :: "real \<Rightarrow> real list \<Rightarrow> RateLimiter \<Rightarrow> bool" where
  "tracks now g s \<longleftrightarrow>
     sorted g \<and> (\<forall>t \<in> set g. t \<le> now) \<and>
     second_window s = filter (\<lambda>t. now - 1 < t) g \<and>
     minute_window s = filter (\<lambda>t. now - 60 < t) g"

definition bounded :: "RateLimiter \<Rightarrow> bool" where
  "bounded s \<longleftrightarrow>
     int (length (second_window s)) \<le> messages_per_second s \<and>
     int (length (minute_window s)) \<le> messages_per_minute s"

section \<open>Properties\<close>

subsection \<open>Trimming\<close>

lemma pop_expired_dropWhile: "pop_expired h w = dropWhile (\<lambda>t. t \<le> h) w"
  by (induction w) simp_all

lemma pop_expired_sorted: "sorted w \<Longrightarrow> pop_expired h w = filter (\<lambda>t. h < t) w"
proof (induction w)
  case Nil
  show ?case by simp
next
  case (Cons t ts)
  show ?case
  proof (cases "t \<le> h")
    case True
    with Cons show ?thesis by simp
  next
    case False
    with Cons.prems have "\<forall>u \<in> set (t # ts). h < u" by auto
    then have "filter (\<lambda>u. h < u) (t # ts) = t # ts"
      by (simp only: filter_id_conv)
    with False show ?thesis by simp
  qed
qed

lemma pop_expired_idem: "pop_expired h (pop_expired h w) = pop_expired h w"
  by (induction w) simp_all

lemma pop_expired_split: "\<exists>old. w = old @ pop_expired h w \<and> (\<forall>t \<in> set old. t \<le> h)"
proof (induction w)
  case Nil
  show ?case by simp
next
  case (Cons t ts)
  then obtain old where old: "ts = old @ pop_expired h ts" "\<forall>u \<in> set old. u \<le> h"
    by blast
  show ?case
  proof (cases "t \<le> h")
    case True
    with old have "t # ts = (t # old) @ pop_expired h (t # ts) \<and> (\<forall>u \<in> set (t # old). u \<le> h)"
      by simp
    then show ?thesis by blast
  next
    case False
    then have "t # ts = [] @ pop_expired h (t # ts) \<and> (\<forall>u \<in> set []. u \<le> h)"
      by simp
    then show ?thesis by blast
  qed
qed

lemma head_pop_expired: "pop_expired h w = t # ts \<Longrightarrow> h < t"
  by (induction w) (auto split: if_splits)

lemma clean_windows_limits [simp]:
  "messages_per_second (clean_windows now s) = messages_per_second s"
  "messages_per_minute (clean_windows now s) = messages_per_minute s"
  by (simp_all add: clean_windows_def)

lemma clean_windows_windows:
  "second_window (clean_windows now s) = pop_expired (now - 1) (second_window s)"
  "minute_window (clean_windows now s) = pop_expired (now - 60) (minute_window s)"
  by (simp_all add: clean_windows_def)

lemma clean_windows_idem: "clean_windows now (clean_windows now s) = clean_windows now s"
  by (simp add: clean_windows_def pop_expired_idem)

lemma pop_expired_mono:
  assumes "h' \<le> h"
  shows "\<exists>older. pop_expired h' w = older @ pop_expired h w"
proof (induction w)
  case Nil
  show ?case by simp
next
  case (Cons t ts)
  show ?case
  proof (cases "t \<le> h'")
    case True
    with assms Cons show ?thesis by simp
  next
    case False
    obtain old where "t # ts = old @ pop_expired h (t # ts)"
      using pop_expired_split by blast
    moreover from False have "pop_expired h' (t # ts) = t # ts" by simp
    ultimately have "pop_expired h' (t # ts) = old @ pop_expired h (t # ts)" by simp
    then show ?thesis ..
  qed
qed

lemma pop_expired_suffix:
  assumes "h' \<le> h"
  shows "\<exists>older. pop_expired h' (pre @ w) = older @ pop_expired h w"
proof (induction pre)
  case Nil
  from pop_expired_mono [OF assms] show ?case by simp
next
  case (Cons p pre)
  show ?case
  proof (cases "p \<le> h'")
    case True
    with Cons show ?thesis by simp
  next
    case False
    obtain old where "w = old @ pop_expired h w"
      using pop_expired_split by blast
    then have "(p # pre) @ w = ((p # pre) @ old) @ pop_expired h w"
      by simp
    moreover from False have "pop_expired h' ((p # pre) @ w) = (p # pre) @ w" by simp
    ultimately have "pop_expired h' ((p # pre) @ w) = ((p # pre) @ old) @ pop_expired h w"
      by simp
    then show ?thesis ..
  qed
qed

lemma clean_windows_suffix:
  assumes "minute_window s = older @ second_window s"
  shows "\<exists>older'. minute_window (clean_windows now s) = older' @ second_window (clean_windows now s)"
proof -
  have "now - 60 \<le> now - 1" by simp
  from pop_expired_suffix [OF this, of older "second_window s"] assms
  show ?thesis by (simp add: clean_windows_windows)
qed

lemma acquire_pass_suffix:
  assumes "minute_window s = older @ second_window s" and "acquire_pass now s = (r, s')"
  shows "\<exists>older'. minute_window s' = older' @ second_window s'"
proof -
  obtain o1 where o1: "minute_window (clean_windows now s) = o1 @ second_window (clean_windows now s)"
    using clean_windows_suffix [OF assms(1)] by blast
  from assms(2) show ?thesis
    by (auto simp: acquire_pass_def Let_def o1 split: if_splits sum.splits)
qed

lemma perform_suffix:
  assumes "minute_window s = older @ second_window s" and "perform c now s = (r, s')"
  shows "\<exists>older'. minute_window s' = older' @ second_window s'"
proof (cases c)
  case Acquire_pass
  with assms(2) obtain r' where "acquire_pass now s = (r', s')"
    by (auto split: prod.splits)
  with assms(1) show ?thesis by (rule acquire_pass_suffix)
next
  case Second_count
  with assms(2) have "s' = clean_windows now s"
    by (auto simp: current_second_count_def Let_def)
  with clean_windows_suffix [OF assms(1)] show ?thesis by simp
next
  case Minute_count
  with assms(2) have "s' = clean_windows now s"
    by (auto simp: current_minute_count_def Let_def)
  with clean_windows_suffix [OF assms(1)] show ?thesis by simp
qed

lemma run_suffix:
  "minute_window s = older @ second_window s \<Longrightarrow> run cs s = (rs, s') \<Longrightarrow>
   \<exists>older'. minute_window s' = older' @ second_window s'"
proof (induction cs arbitrary: s older rs s')
  case Nil
  then show ?case by auto
next
  case (Cons c cs)
  obtain k now where c: "c = (k, now)" by (cases c)
  obtain r s1 where p: "perform k now s = (r, s1)" by (cases "perform k now s")
  obtain rs1 s2 where r: "run cs s1 = (rs1, s2)" by (cases "run cs s1")
  from Cons.prems(2) c p r have s': "s' = s2" by simp
  from perform_suffix [OF Cons.prems(1) p] obtain o1 where "minute_window s1 = o1 @ second_window s1"
    by blast
  from Cons.IH [OF this r] s' show ?case by simp
qed

subsection \<open>The constructor\<close>











subsection \<open>The subset invariant\<close>

text \<open>
  C5. After every sequence of calls on a freshly constructed limiter, whatever the clock
  readings, the second window is the tail end of the minute window; so every timestamp in
  the second window is also in the minute window.
\<close>

theorem second_window_within_minute_window:
  assumes "second_window s0 = []" and "minute_window s0 = []" and "run cs s0 = (rs, s)"
  shows "(\<exists>older. minute_window s = older @ second_window s) \<and>
         set (second_window s) \<subseteq> set (minute_window s)"
proof -
  from assms(1,2) have "minute_window s0 = [] @ second_window s0" by simp
  from run_suffix [OF this assms(3)] obtain older where "minute_window s = older @ second_window s"
    by blast
  then show ?thesis by auto
qed

theorem second_window_within_minute_window_witness:
  "set (second_window (snd (run [(Acquire_pass, 0), (Acquire_pass, 1 / 2), (Second_count, 5 / 4)]
      \<lparr>messages_per_second = 2, messages_per_minute = 5, second_window = [], minute_window = []\<rparr>)))
   \<subseteq> set (minute_window (snd (run [(Acquire_pass, 0), (Acquire_pass, 1 / 2), (Second_count, 5 / 4)]
      \<lparr>messages_per_second = 2, messages_per_minute = 5, second_window = [], minute_window = []\<rparr>)))"
  using second_window_within_minute_window
    [of "\<lparr>messages_per_second = 2, messages_per_minute = 5, second_window = [], minute_window = []\<rparr>"
        "[(Acquire_pass, 0), (Acquire_pass, 1 / 2), (Second_count, 5 / 4)]"
        "fst (run [(Acquire_pass, 0), (Acquire_pass, 1 / 2), (Second_count, 5 / 4)]
           \<lparr>messages_per_second = 2, messages_per_minute = 5, second_window = [], minute_window = []\<rparr>)"
        "snd (run [(Acquire_pass, 0), (Acquire_pass, 1 / 2), (Second_count, 5 / 4)]
           \<lparr>messages_per_second = 2, messages_per_minute = 5, second_window = [], minute_window = []\<rparr>)"]
  by simp

subsection \<open>The capacity invariant\<close>

lemma pop_expired_filter_later:
  assumes "sorted g" and "h0 \<le> h"
  shows "pop_expired h (filter (\<lambda>t. h0 < t) g) = filter (\<lambda>t. h < t) g"
proof -
  from assms(1) have "sorted (filter (\<lambda>t. h0 < t) g)"
    by (rule sorted_wrt_filter)
  then have "pop_expired h (filter (\<lambda>t. h0 < t) g) = filter (\<lambda>t. h < t) (filter (\<lambda>t. h0 < t) g)"
    by (rule pop_expired_sorted)
  also have "\<dots> = filter (\<lambda>t. h < t) g"
    using assms(2) by (auto simp: filter_filter intro: filter_cong)
  finally show ?thesis .
qed

lemma tracks_clean_windows:
  assumes "tracks now0 g s" and "now0 \<le> now"
  shows "tracks now g (clean_windows now s)"
proof -
  from assms(1) have g: "sorted g" "\<forall>t \<in> set g. t \<le> now0"
    and w: "second_window s = filter (\<lambda>t. now0 - 1 < t) g"
           "minute_window s = filter (\<lambda>t. now0 - 60 < t) g"
    by (simp_all add: tracks_def)
  from assms(2) have h: "now0 - 1 \<le> now - 1" "now0 - 60 \<le> now - 60" by simp_all
  have "second_window (clean_windows now s) = filter (\<lambda>t. now - 1 < t) g"
    using pop_expired_filter_later [OF g(1) h(1)] w(1) by (simp add: clean_windows_windows)
  moreover have "minute_window (clean_windows now s) = filter (\<lambda>t. now - 60 < t) g"
    using pop_expired_filter_later [OF g(1) h(2)] w(2) by (simp add: clean_windows_windows)
  moreover from g(2) assms(2) have "\<forall>t \<in> set g. t \<le> now" by auto
  ultimately show ?thesis using g(1) by (simp add: tracks_def)
qed

lemma tracks_append:
  assumes "tracks now g s"
  shows "tracks now (g @ [now])
           (s\<lparr>second_window := second_window s @ [now], minute_window := minute_window s @ [now]\<rparr>)"
  using assms by (auto simp: tracks_def sorted_append)

lemma tracks_acquire_pass:
  assumes "tracks now0 g s" and "now0 \<le> now" and "acquire_pass now s = (r, s')"
  shows "tracks now (g @ (if r = Admitted then [now] else [])) s'"
proof -
  have t: "tracks now g (clean_windows now s)"
    using assms(1,2) by (rule tracks_clean_windows)
  show ?thesis
  proof (cases "per_second_ok (clean_windows now s) \<and> per_minute_ok (clean_windows now s)")
    case True
    with assms(3) have "r = Admitted"
      and "s' = (clean_windows now s)\<lparr>second_window := second_window (clean_windows now s) @ [now],
                 minute_window := minute_window (clean_windows now s) @ [now]\<rparr>"
      by (auto simp: acquire_pass_def Let_def)
    with tracks_append [OF t] show ?thesis by simp
  next
    case False
    with assms(3) have "r \<noteq> Admitted" and "s' = clean_windows now s"
      by (auto simp: acquire_pass_def Let_def split: sum.splits)
    with t show ?thesis by simp
  qed
qed

lemma tracks_perform:
  assumes "tracks now0 g s" and "now0 \<le> now" and "perform c now s = (r, s')"
  shows "tracks now (g @ (if r = Outcome Admitted then [now] else [])) s'"
proof (cases c)
  case Acquire_pass
  with assms(3) obtain r' where r': "acquire_pass now s = (r', s')" "r = Outcome r'"
    by (auto split: prod.splits)
  from tracks_acquire_pass [OF assms(1,2) r'(1)] r'(2) show ?thesis by simp
next
  case Second_count
  with assms(3) have "s' = clean_windows now s" "r \<noteq> Outcome Admitted"
    by (auto simp: current_second_count_def Let_def)
  with tracks_clean_windows [OF assms(1,2)] show ?thesis by simp
next
  case Minute_count
  with assms(3) have "s' = clean_windows now s" "r \<noteq> Outcome Admitted"
    by (auto simp: current_minute_count_def Let_def)
  with tracks_clean_windows [OF assms(1,2)] show ?thesis by simp
qed

lemma tracks_run:
  "tracks now0 g s \<Longrightarrow> sorted (now0 # map snd cs) \<Longrightarrow> run cs s = (rs, s') \<Longrightarrow>
   tracks (last (now0 # map snd cs)) (g @ granted cs rs) s'"
proof (induction cs arbitrary: now0 g s rs s')
  case Nil
  then show ?case by auto
next
  case (Cons c cs)
  obtain k now where c: "c = (k, now)" by (cases c)
  obtain r s1 where p: "perform k now s = (r, s1)" by (cases "perform k now s")
  obtain rs1 s2 where r: "run cs s1 = (rs1, s2)" by (cases "run cs s1")
  from Cons.prems(3) c p r have res: "rs = r # rs1" "s' = s2" by simp_all
  from Cons.prems(2) c have le: "now0 \<le> now" and srt: "sorted (now # map snd cs)" by simp_all
  let ?g1 = "g @ (if r = Outcome Admitted then [now] else [])"
  have "tracks now ?g1 s1"
    using Cons.prems(1) le p by (rule tracks_perform)
  from Cons.IH [OF this srt r]
  have "tracks (last (now # map snd cs)) (?g1 @ granted cs rs1) s2" .
  moreover have "?g1 @ granted cs rs1 = g @ granted (c # cs) rs"
    using c res by simp
  moreover have "last (now0 # map snd (c # cs)) = last (now # map snd cs)"
    using c by simp
  ultimately show ?case using res by simp
qed

lemma tracks_fresh:
  "second_window s = [] \<Longrightarrow> minute_window s = [] \<Longrightarrow> tracks now [] s"
  by (simp add: tracks_def)

lemma length_pop_expired: "length (pop_expired h w) \<le> length w"
  by (simp add: pop_expired_dropWhile length_dropWhile_le)

lemma bounded_clean_windows: "bounded s \<Longrightarrow> bounded (clean_windows now s)"
  using length_pop_expired [of "now - 1" "second_window s"]
    length_pop_expired [of "now - 60" "minute_window s"]
  by (simp add: bounded_def clean_windows_def)

lemma acquire_pass_limits:
  assumes "acquire_pass now s = (r, s')"
  shows "messages_per_second s' = messages_per_second s \<and> messages_per_minute s' = messages_per_minute s"
  using assms by (auto simp: acquire_pass_def Let_def split: if_splits sum.splits)

lemma bounded_acquire_pass:
  assumes "bounded s" and "acquire_pass now s = (r, s')"
  shows "bounded s'"
  using bounded_clean_windows [OF assms(1), of now] assms(2)
  by (auto simp: acquire_pass_def Let_def bounded_def per_second_ok_def per_minute_ok_def
      split: if_splits sum.splits)

lemma acquire_pass_no_raise:
  assumes "1 \<le> messages_per_second s" and "1 \<le> messages_per_minute s"
  shows "fst (acquire_pass now s) \<noteq> Raised e"
  using assms
  by (auto simp: acquire_pass_def Let_def compute_wait_def head_def per_second_ok_def per_minute_ok_def
      split: list.splits sum.splits)

lemma perform_keeps:
  assumes "bounded s" and "perform c now s = (r, s')"
    and "1 \<le> messages_per_second s" and "1 \<le> messages_per_minute s"
  shows "bounded s' \<and> messages_per_second s' = messages_per_second s \<and>
         messages_per_minute s' = messages_per_minute s \<and> r \<noteq> Outcome (Raised e)"
proof (cases c)
  case Acquire_pass
  with assms(2) obtain r' where r': "acquire_pass now s = (r', s')" "r = Outcome r'"
    by (auto split: prod.splits)
  from acquire_pass_no_raise [OF assms(3,4), of now e] r' have "r \<noteq> Outcome (Raised e)" by simp
  with bounded_acquire_pass [OF assms(1) r'(1)] acquire_pass_limits [OF r'(1)]
  show ?thesis by simp
next
  case Second_count
  with assms(2) have "s' = clean_windows now s" "r \<noteq> Outcome (Raised e)"
    by (auto simp: current_second_count_def Let_def)
  with bounded_clean_windows [OF assms(1)] show ?thesis by simp
next
  case Minute_count
  with assms(2) have "s' = clean_windows now s" "r \<noteq> Outcome (Raised e)"
    by (auto simp: current_minute_count_def Let_def)
  with bounded_clean_windows [OF assms(1)] show ?thesis by simp
qed

lemma run_keeps:
  "bounded s \<Longrightarrow> 1 \<le> messages_per_second s \<Longrightarrow> 1 \<le> messages_per_minute s \<Longrightarrow>
   run cs s = (rs, s') \<Longrightarrow>
   bounded s' \<and> messages_per_second s' = messages_per_second s \<and>
   messages_per_minute s' = messages_per_minute s \<and> Outcome (Raised e) \<notin> set rs"
proof (induction cs arbitrary: s rs s')
  case Nil
  then show ?case by auto
next
  case (Cons c cs)
  obtain k now where c: "c = (k, now)" by (cases c)
  obtain r s1 where p: "perform k now s = (r, s1)" by (cases "perform k now s")
  obtain rs1 s2 where r: "run cs s1 = (rs1, s2)" by (cases "run cs s1")
  from Cons.prems(4) c p r have res: "rs = r # rs1" "s' = s2" by simp_all
  from perform_keeps [OF Cons.prems(1) p Cons.prems(2,3), of e]
  have k: "bounded s1" "messages_per_second s1 = messages_per_second s"
    "messages_per_minute s1 = messages_per_minute s" "r \<noteq> Outcome (Raised e)"
    by simp_all
  from Cons.prems(2,3) k(2,3) have "1 \<le> messages_per_second s1" "1 \<le> messages_per_minute s1"
    by simp_all
  from Cons.IH [OF k(1) this r] k res show ?case by auto
qed

lemma filter_later_length:
  assumes "(now::real) \<le> t'"
  shows "length (filter (\<lambda>t. t' - d < t) g) \<le> length (filter (\<lambda>t. now - d < t) g)"
proof -
  have "filter (\<lambda>t. t' - d < t) g = filter (\<lambda>t. t' - d < t) (filter (\<lambda>t. now - d < t) g)"
    using assms by (auto simp: filter_filter intro: filter_cong)
  then show ?thesis by (metis length_filter_le)
qed

lemma run_example:
  "run [(Acquire_pass, 0), (Acquire_pass, 1 / 4), (Acquire_pass, 1 / 2), (Second_count, 1)]
     \<lparr>messages_per_second = 2, messages_per_minute = 5, second_window = [], minute_window = []\<rparr> =
   ([Outcome Admitted, Outcome Admitted, Outcome (Sleep (1 / 2)), Count 1],
    \<lparr>messages_per_second = 2, messages_per_minute = 5, second_window = [1 / 4],
     minute_window = [0, 1 / 4]\<rparr>)"
  by (simp add: acquire_pass_def clean_windows_def per_second_ok_def per_minute_ok_def
      compute_wait_def head_def current_second_count_def Let_def)

text \<open>
  C1. Take a freshly constructed limiter with positive limits and any sequence of passes
  of \<open>acquire\<close> and count queries whose clock readings never decrease. After the last
  step, the second window holds exactly the grants of the trailing second and the minute
  window exactly the grants of the trailing sixty seconds; from then on, at every
  instant, the grants of the trailing second number at most \<open>messages_per_second\<close> and
  those of the trailing sixty seconds at most \<open>messages_per_minute\<close>; no step raises;
  and a pass admits only when both trimmed windows are below their caps.
\<close>

theorem capacity_invariant:
  assumes "second_window s0 = []" and "minute_window s0 = []"
    and "0 < messages_per_second s0" and "0 < messages_per_minute s0"
    and "sorted (map snd cs)" and "cs \<noteq> []" and "run cs s0 = (rs, s)"
  shows "second_window s = filter (\<lambda>t. snd (last cs) - 1 < t) (granted cs rs) \<and>
         minute_window s = filter (\<lambda>t. snd (last cs) - 60 < t) (granted cs rs) \<and>
         (\<forall>t \<in> set (granted cs rs). t \<le> snd (last cs)) \<and>
         (\<forall>t'. snd (last cs) \<le> t' \<longrightarrow>
            int (length (filter (\<lambda>t. t' - 1 < t) (granted cs rs))) \<le> messages_per_second s0 \<and>
            int (length (filter (\<lambda>t. t' - 60 < t) (granted cs rs))) \<le> messages_per_minute s0) \<and>
         (\<forall>e. Outcome (Raised e) \<notin> set rs) \<and>
         (\<forall>now s1. fst (acquire_pass now s1) = Admitted \<longrightarrow>
            per_second_ok (clean_windows now s1) \<and> per_minute_ok (clean_windows now s1))"
proof -
  let ?now = "snd (last cs)"
  let ?g = "granted cs rs"
  from assms(6) obtain c cs' where cs: "cs = c # cs'" by (cases cs) auto
  have t0: "tracks (snd c) [] s0"
    using assms(1,2) by (rule tracks_fresh)
  have "sorted (snd c # map snd cs)"
    using assms(5) cs by simp
  from tracks_run [OF t0 this assms(7)] assms(6)
  have t: "tracks ?now ?g s"
    by (simp add: last_map)
  have b0: "bounded s0"
    using assms(1-4) by (simp add: bounded_def)
  from assms(3,4) have pos: "1 \<le> messages_per_second s0" "1 \<le> messages_per_minute s0"
    by simp_all
  have k: "bounded s \<and> messages_per_second s = messages_per_second s0 \<and>
      messages_per_minute s = messages_per_minute s0 \<and> Outcome (Raised e) \<notin> set rs" for e
    using b0 pos assms(7) by (rule run_keeps)
  from k [of IndexError] have k1: "bounded s" "messages_per_second s = messages_per_second s0"
    "messages_per_minute s = messages_per_minute s0"
    by simp_all
  from k have k2: "\<forall>e. Outcome (Raised e) \<notin> set rs" by simp
  from t have w: "second_window s = filter (\<lambda>t. ?now - 1 < t) ?g"
    "minute_window s = filter (\<lambda>t. ?now - 60 < t) ?g"
    and le: "\<forall>t \<in> set ?g. t \<le> ?now"
    by (simp_all add: tracks_def)
  have cap: "int (length (filter (\<lambda>t. t' - 1 < t) ?g)) \<le> messages_per_second s0 \<and>
      int (length (filter (\<lambda>t. t' - 60 < t) ?g)) \<le> messages_per_minute s0"
    if "?now \<le> t'" for t'
  proof -
    from k1 w have "int (length (filter (\<lambda>t. ?now - 1 < t) ?g)) \<le> messages_per_second s0"
      and "int (length (filter (\<lambda>t. ?now - 60 < t) ?g)) \<le> messages_per_minute s0"
      by (simp_all add: bounded_def)
    with filter_later_length [OF that, of 1 ?g] filter_later_length [OF that, of 60 ?g]
    show ?thesis by linarith
  qed
  have adm: "per_second_ok (clean_windows now s1) \<and> per_minute_ok (clean_windows now s1)"
    if "fst (acquire_pass now s1) = Admitted" for now s1
    using that by (auto simp: acquire_pass_def Let_def split: if_splits sum.splits)
  from w le cap k2 adm show ?thesis by blast
qed

theorem capacity_invariant_witness:
  "second_window \<lparr>messages_per_second = 2, messages_per_minute = 5, second_window = [1 / 4],
       minute_window = [0, 1 / 4]\<rparr> =
     filter (\<lambda>t. 1 - 1 < t) [0, 1 / 4] \<and>
   int (length (filter (\<lambda>t. (3 / 2) - 1 < t) [0, 1 / 4 :: real])) \<le> 2 \<and>
   Outcome (Raised IndexError) \<notin>
     set [Outcome Admitted, Outcome Admitted, Outcome (Sleep (1 / 2)), Count 1]"
  using capacity_invariant
    [of "\<lparr>messages_per_second = 2, messages_per_minute = 5, second_window = [], minute_window = []\<rparr>"
        "[(Acquire_pass, 0), (Acquire_pass, 1 / 4), (Acquire_pass, 1 / 2), (Second_count, 1)]"
        "[Outcome Admitted, Outcome Admitted, Outcome (Sleep (1 / 2)), Count 1]"
        "\<lparr>messages_per_second = 2, messages_per_minute = 5, second_window = [1 / 4],
          minute_window = [0, 1 / 4]\<rparr>"]
    run_example
  by simp

subsection \<open>Admission\<close>

text \<open>
  C3. When both windows, trimmed at the current time, are strictly below their caps, the
  pass appends the current timestamp to both windows and \<open>acquire\<close> returns at once:
  no wait is slept and the call never suspends.
\<close>

theorem admitted_below_caps:
  assumes "per_second_ok (clean_windows now s0)" and "per_minute_ok (clean_windows now s0)"
  shows "acquire_pass now s0 =
           (Admitted, (clean_windows now s0)
              \<lparr>second_window := second_window (clean_windows now s0) @ [now],
               minute_window := minute_window (clean_windows now s0) @ [now]\<rparr>) \<and>
         acquire (now # clock) s0 =
           Some (Inr [], (clean_windows now s0)
              \<lparr>second_window := second_window (clean_windows now s0) @ [now],
               minute_window := minute_window (clean_windows now s0) @ [now]\<rparr>) \<and>
         Suspend \<notin> set (acquire_effects (now # clock) s0)"
proof -
  from assms have p: "acquire_pass now s0 =
      (Admitted, (clean_windows now s0)
         \<lparr>second_window := second_window (clean_windows now s0) @ [now],
          minute_window := minute_window (clean_windows now s0) @ [now]\<rparr>)"
    by (simp add: acquire_pass_def Let_def)
  then show ?thesis by (simp add: acquire_effects_def)
qed

theorem admitted_below_caps_witness:
  "acquire [3 / 2, 7]
     \<lparr>messages_per_second = 2, messages_per_minute = 5, second_window = [1 / 4, 1],
      minute_window = [0, 1 / 4, 1]\<rparr> =
   Some (Inr [], \<lparr>messages_per_second = 2, messages_per_minute = 5, second_window = [1, 3 / 2],
      minute_window = [0, 1 / 4, 1, 3 / 2]\<rparr>)"
  using admitted_below_caps
    [of "3 / 2" "\<lparr>messages_per_second = 2, messages_per_minute = 5, second_window = [1 / 4, 1],
      minute_window = [0, 1 / 4, 1]\<rparr>" "[7]"]
  by (simp add: clean_windows_def per_second_ok_def per_minute_ok_def)

subsection \<open>The wait\<close>

lemma clean_windows_heads:
  "second_window (clean_windows now s) = t # ts \<Longrightarrow> 0 < t + 1 - now"
  "minute_window (clean_windows now s) = u # us \<Longrightarrow> 0 < u + 60 - now"
  using head_pop_expired [of "now - 1" "second_window s" t ts]
    head_pop_expired [of "now - 60" "minute_window s" u us]
  by (simp_all add: clean_windows_windows)

lemma compute_wait_trimmed:
  assumes "compute_wait now (clean_windows now s0) = Inr w"
    and "\<not> (per_second_ok (clean_windows now s0) \<and> per_minute_ok (clean_windows now s0))"
  shows "w = spec_wait now (clean_windows now s0) \<and> 0 < w"
proof -
  let ?s = "clean_windows now s0"
  show ?thesis
  proof (cases "per_second_ok ?s")
    case True
    with assms(2) have m: "\<not> per_minute_ok ?s" by simp
    with True assms(1) obtain u us where u: "minute_window ?s = u # us"
      by (auto simp: compute_wait_def head_def split: list.splits)
    from clean_windows_heads(2) [OF u] have "0 < u + 60 - now" .
    with True m u assms(1) show ?thesis
      by (auto simp: compute_wait_def head_def spec_wait_def)
  next
    case False
    with assms(1) obtain t ts where t: "second_window ?s = t # ts"
      by (auto simp: compute_wait_def head_def split: list.splits)
    from clean_windows_heads(1) [OF t] have pt: "0 < t + 1 - now" .
    show ?thesis
    proof (cases "per_minute_ok ?s")
      case True
      with False t pt assms(1) show ?thesis
        by (auto simp: compute_wait_def head_def spec_wait_def)
    next
      case m: False
      with False t assms(1) obtain u us where u: "minute_window ?s = u # us"
        by (auto simp: compute_wait_def head_def split: list.splits)
      with False m t pt assms(1) show ?thesis
        by (auto simp: compute_wait_def head_def spec_wait_def)
    qed
  qed
qed

lemma compute_wait_defined:
  assumes "1 \<le> messages_per_second s" and "1 \<le> messages_per_minute s"
  shows "\<exists>w. compute_wait now s = Inr w"
  using assms
  by (cases "second_window s"; cases "minute_window s")
    (simp_all add: compute_wait_def head_def per_second_ok_def per_minute_ok_def)

text \<open>
  C4. Whenever a pass decides to sleep, the limiter is left trimmed, the wait is the
  larger of the waits of the full windows (oldest entry plus the window's span, minus the
  current time), it is not negative, and every window whose head was read is not empty.
  With limits of at least one, a pass that finds a window full does compute this wait.
\<close>

theorem wait_is_larger_applicable_wait:
  "(\<forall>w s. acquire_pass now s0 = (Sleep w, s) \<longrightarrow>
      s = clean_windows now s0 \<and> w = spec_wait now s \<and> 0 \<le> w \<and>
      (\<not> per_second_ok s \<longrightarrow> second_window s \<noteq> []) \<and>
      (\<not> per_minute_ok s \<longrightarrow> minute_window s \<noteq> [])) \<and>
   (1 \<le> messages_per_second s0 \<and> 1 \<le> messages_per_minute s0 \<and>
    \<not> (per_second_ok (clean_windows now s0) \<and> per_minute_ok (clean_windows now s0)) \<longrightarrow>
      acquire_pass now s0 =
        (Sleep (spec_wait now (clean_windows now s0)), clean_windows now s0))"
proof -
  let ?s = "clean_windows now s0"
  have a: "s = ?s \<and> w = spec_wait now s \<and> 0 \<le> w \<and>
      (\<not> per_second_ok s \<longrightarrow> second_window s \<noteq> []) \<and>
      (\<not> per_minute_ok s \<longrightarrow> minute_window s \<noteq> [])"
    if "acquire_pass now s0 = (Sleep w, s)" for w s
  proof -
    from that have full: "\<not> (per_second_ok ?s \<and> per_minute_ok ?s)"
      and s: "s = ?s" and cw: "compute_wait now ?s = Inr w"
      by (auto simp: acquire_pass_def Let_def split: if_splits sum.splits)
    from compute_wait_trimmed [OF cw full] have "w = spec_wait now ?s" "0 < w" by simp_all
    moreover from cw have "\<not> per_second_ok ?s \<longrightarrow> second_window ?s \<noteq> []"
      by (auto simp: compute_wait_def head_def split: list.splits if_splits sum.splits)
    moreover from cw have "\<not> per_minute_ok ?s \<longrightarrow> minute_window ?s \<noteq> []"
      by (auto simp: compute_wait_def head_def split: list.splits if_splits sum.splits)
    ultimately show ?thesis using s by simp
  qed
  have b: "acquire_pass now s0 = (Sleep (spec_wait now ?s), ?s)"
    if "1 \<le> messages_per_second s0" "1 \<le> messages_per_minute s0"
      "\<not> (per_second_ok ?s \<and> per_minute_ok ?s)"
  proof -
    from that(1,2) have "1 \<le> messages_per_second ?s" "1 \<le> messages_per_minute ?s"
      by simp_all
    then obtain w where cw: "compute_wait now ?s = Inr w"
      using compute_wait_defined by blast
    from compute_wait_trimmed [OF cw that(3)] cw that(3) show ?thesis
      by (auto simp: acquire_pass_def Let_def)
  qed
  from a b show ?thesis by blast
qed

theorem wait_is_larger_applicable_wait_witness:
  "acquire_pass (1 / 2)
     \<lparr>messages_per_second = 2, messages_per_minute = 2, second_window = [0, 1 / 4],
      minute_window = [0, 1 / 4]\<rparr> =
   (Sleep (119 / 2), \<lparr>messages_per_second = 2, messages_per_minute = 2, second_window = [0, 1 / 4],
      minute_window = [0, 1 / 4]\<rparr>)"
  using wait_is_larger_applicable_wait
    [of "1 / 2" "\<lparr>messages_per_second = 2, messages_per_minute = 2, second_window = [0, 1 / 4],
      minute_window = [0, 1 / 4]\<rparr>"]
  by (simp add: clean_windows_def per_second_ok_def per_minute_ok_def spec_wait_def)

subsection \<open>What trimming removes\<close>

text \<open>
  C6, as stated, fails at the boundary: an entry exactly at the horizon is evicted,
  not retained.
\<close>

theorem boundary_entry_evicted_counterexample:
  "(1::real) - 1 \<le> 0 \<and>
   0 \<in> set (second_window \<lparr>messages_per_second = 2, messages_per_minute = 5,
              second_window = [0], minute_window = [0]\<rparr>) \<and>
   0 \<notin> set (second_window (clean_windows 1 \<lparr>messages_per_second = 2, messages_per_minute = 5,
              second_window = [0], minute_window = [0]\<rparr>)) \<and>
   fst (current_second_count 1 \<lparr>messages_per_second = 2, messages_per_minute = 5,
              second_window = [0], minute_window = [0]\<rparr>) = 0"
  by (simp add: clean_windows_def current_second_count_def)

text \<open>
  C6, amended. Trimming drops from the head of each window the entries at or older than
  the window's horizon (\<open>now - 1\<close>, \<open>now - 60\<close>); on a window in non-decreasing order
  it therefore keeps exactly the entries strictly newer than the horizon. The count
  queries return the size of the window after this trim.
\<close>

theorem trimming_evicts_up_to_horizon:
  "second_window (clean_windows now s) = dropWhile (\<lambda>t. t \<le> now - 1) (second_window s) \<and>
   minute_window (clean_windows now s) = dropWhile (\<lambda>t. t \<le> now - 60) (minute_window s) \<and>
   (sorted (second_window s) \<longrightarrow>
      second_window (clean_windows now s) = filter (\<lambda>t. now - 1 < t) (second_window s)) \<and>
   (sorted (minute_window s) \<longrightarrow>
      minute_window (clean_windows now s) = filter (\<lambda>t. now - 60 < t) (minute_window s)) \<and>
   current_second_count now s = (length (second_window (clean_windows now s)), clean_windows now s) \<and>
   current_minute_count now s = (length (minute_window (clean_windows now s)), clean_windows now s)"
  by (simp add: clean_windows_windows pop_expired_dropWhile [symmetric] pop_expired_sorted
      current_second_count_def current_minute_count_def)

theorem trimming_evicts_up_to_horizon_witness:
  "second_window (clean_windows 2 \<lparr>messages_per_second = 3, messages_per_minute = 5,
      second_window = [1 / 2, 1, 3 / 2], minute_window = [0, 1 / 2, 1, 3 / 2]\<rparr>) = [3 / 2] \<and>
   minute_window (clean_windows 2 \<lparr>messages_per_second = 3, messages_per_minute = 5,
      second_window = [1 / 2, 1, 3 / 2], minute_window = [0, 1 / 2, 1, 3 / 2]\<rparr>) = [0, 1 / 2, 1, 3 / 2]"
  using trimming_evicts_up_to_horizon
    [of 2 "\<lparr>messages_per_second = 3, messages_per_minute = 5,
      second_window = [1 / 2, 1, 3 / 2], minute_window = [0, 1 / 2, 1, 3 / 2]\<rparr>"]
  by simp

subsection \<open>Count queries\<close>

lemma perform_count:
  assumes "c \<noteq> Acquire_pass"
  shows "snd (perform c now s) = clean_windows now s"
    and "fst (perform c now (clean_windows now s)) = fst (perform c now s)"
proof -
  show "snd (perform c now s) = clean_windows now s"
  proof (cases c)
    case Acquire_pass
    with assms show ?thesis by simp
  next
    case Second_count
    then show ?thesis by (simp add: current_second_count_def Let_def)
  next
    case Minute_count
    then show ?thesis by (simp add: current_minute_count_def Let_def)
  qed
  show "fst (perform c now (clean_windows now s)) = fst (perform c now s)"
  proof (cases c)
    case Acquire_pass
    with assms show ?thesis by simp
  next
    case Second_count
    then show ?thesis by (simp add: current_second_count_def Let_def clean_windows_idem)
  next
    case Minute_count
    then show ?thesis by (simp add: current_minute_count_def Let_def clean_windows_idem)
  qed
qed

lemma perform_count_pair:
  assumes "c \<noteq> Acquire_pass"
  obtains r where "perform c now s = (r, clean_windows now s)"
    and "perform c now (clean_windows now s) = (r, clean_windows now s)"
proof -
  obtain r s1 where p: "perform c now s = (r, s1)" by (cases "perform c now s")
  obtain r' s2 where p': "perform c now (clean_windows now s) = (r', s2)"
    by (cases "perform c now (clean_windows now s)")
  from perform_count(1) [OF assms, of now s] p have "s1 = clean_windows now s" by simp
  moreover from perform_count(1) [OF assms, of now "clean_windows now s"] p'
  have "s2 = clean_windows now s" by (simp add: clean_windows_idem)
  moreover from perform_count(2) [OF assms, of now s] p p' have "r' = r" by simp
  ultimately show ?thesis using p p' that by simp
qed

lemma run_counts:
  assumes "Acquire_pass \<notin> set qs"
  shows "run (map (\<lambda>c. (c, now)) qs) (clean_windows now s) =
           (map (\<lambda>c. fst (perform c now s)) qs, clean_windows now s)"
  using assms
proof (induction qs)
  case Nil
  show ?case by simp
next
  case (Cons q qs)
  then have q: "q \<noteq> Acquire_pass" and qs: "Acquire_pass \<notin> set qs" by auto
  from q obtain r where r: "perform q now s = (r, clean_windows now s)"
    "perform q now (clean_windows now s) = (r, clean_windows now s)"
    by (rule perform_count_pair)
  from Cons.IH [OF qs] r show ?case by simp
qed

text \<open>
  C7. Any non-empty sequence of count queries made at one instant returns, for each
  query, the value a single query would return, and leaves the limiter in the state a
  single query leaves it in; repeating a query changes nothing; a query only evicts head
  entries and never adds one.
\<close>

theorem count_queries_idempotent:
  assumes "Acquire_pass \<notin> set qs" and "q \<in> set qs"
  shows "run (map (\<lambda>c. (c, now)) qs) s =
           (map (\<lambda>c. fst (perform c now s)) qs, snd (perform q now s)) \<and>
         snd (perform q now s) = clean_windows now s \<and>
         perform q now (snd (perform q now s)) = perform q now s \<and>
         (\<exists>evicted. second_window s = evicted @ second_window (clean_windows now s)) \<and>
         (\<exists>evicted. minute_window s = evicted @ minute_window (clean_windows now s))"
proof -
  from assms have q: "q \<noteq> Acquire_pass" by auto
  from assms(2) obtain q0 qs' where qs: "qs = q0 # qs'" by (cases qs) auto
  with assms(1) have q0: "q0 \<noteq> Acquire_pass" and qs': "Acquire_pass \<notin> set qs'" by auto
  from q0 obtain r0 where r0: "perform q0 now s = (r0, clean_windows now s)"
    by (rule perform_count_pair)
  from run_counts [OF qs', of now s] qs r0
  have r: "run (map (\<lambda>c. (c, now)) qs) s = (map (\<lambda>c. fst (perform c now s)) qs, clean_windows now s)"
    by simp
  from q obtain rq where rq: "perform q now s = (rq, clean_windows now s)"
    "perform q now (clean_windows now s) = (rq, clean_windows now s)"
    by (rule perform_count_pair)
  from rq have c: "snd (perform q now s) = clean_windows now s" by simp
  from rq have i: "perform q now (snd (perform q now s)) = perform q now s" by simp
  have e1: "\<exists>evicted. second_window s = evicted @ second_window (clean_windows now s)"
    using pop_expired_split [of "second_window s" "now - 1"] by (auto simp: clean_windows_windows)
  have e2: "\<exists>evicted. minute_window s = evicted @ minute_window (clean_windows now s)"
    using pop_expired_split [of "minute_window s" "now - 60"] by (auto simp: clean_windows_windows)
  from r c i e1 e2 show ?thesis by simp
qed

theorem count_queries_idempotent_witness:
  "run (map (\<lambda>c. (c, 5 / 4)) [Second_count, Minute_count, Second_count])
     \<lparr>messages_per_second = 3, messages_per_minute = 5,
      second_window = [0, 1 / 2, 1], minute_window = [0, 1 / 2, 1]\<rparr> =
   ([Count 2, Count 3, Count 2],
    \<lparr>messages_per_second = 3, messages_per_minute = 5,
      second_window = [1 / 2, 1], minute_window = [0, 1 / 2, 1]\<rparr>)"
  using count_queries_idempotent
    [of "[Second_count, Minute_count, Second_count]" Minute_count "5 / 4"
        "\<lparr>messages_per_second = 3, messages_per_minute = 5,
          second_window = [0, 1 / 2, 1], minute_window = [0, 1 / 2, 1]\<rparr>"]
  by (simp add: current_second_count_def current_minute_count_def clean_windows_def)

subsection \<open>The lock\<close>

text \<open>
  C8, as stated, fails: the count properties touch the windows without holding the
  lock.
\<close>

theorem count_queries_take_no_lock_counterexample:
  "\<not> guarded False current_second_count_effects \<and> \<not> guarded False current_minute_count_effects"
  by (simp add: current_second_count_effects_def current_minute_count_effects_def)

lemma guarded_passes: "guarded True (passes_effects clock s)"
proof (induction clock arbitrary: s)
  case Nil
  show ?case by simp
next
  case (Cons now clock)
  obtain r s' where p: "acquire_pass now s = (r, s')" by (cases "acquire_pass now s")
  show ?case
  proof (cases r)
    case Admitted
    with p show ?thesis by simp
  next
    case (Sleep w)
    with p Cons.IH [of s'] show ?thesis by simp
  next
    case (Raised e)
    with p show ?thesis by simp
  qed
qed

text \<open>
  C8, amended. \<open>acquire\<close> takes the lock before its first access to a window, holds it
  at every access, and never holds it while suspended. The count properties neither
  take the lock nor contain a suspension point.
\<close>

theorem lock_held_by_acquire_only:
  "guarded False (acquire_effects clock s) \<and>
   Lock_acquire \<notin> set current_second_count_effects \<and>
   Suspend \<notin> set current_second_count_effects \<and>
   Lock_acquire \<notin> set current_minute_count_effects \<and>
   Suspend \<notin> set current_minute_count_effects"
  by (simp add: acquire_effects_def guarded_passes
      current_second_count_effects_def current_minute_count_effects_def)

subsection \<open>Limits that are not positive\<close>

text \<open>
  C2, as stated, fails: a negative limit is accepted and construction succeeds.
\<close>

theorem negative_limit_accepted_counterexample:
  "init (Some (- 1)) (Some (- 5)) Map.empty =
     Inr \<lparr>messages_per_second = - 1, messages_per_minute = - 5,
          second_window = [], minute_window = []\<rparr>"
  by (simp add: init_def)

text \<open>
  C2, amended. The constructor validates nothing: arguments that are not zero, negative
  ones included, are stored as given and construction succeeds.
\<close>

theorem init_stores_nonzero_limits:
  "n \<noteq> 0 \<Longrightarrow> m \<noteq> 0 \<Longrightarrow>
   init (Some n) (Some m) env =
     Inr \<lparr>messages_per_second = n, messages_per_minute = m,
          second_window = [], minute_window = []\<rparr>"
  by (simp add: init_def)

theorem init_stores_nonzero_limits_witness:
  "init (Some (- 3)) (Some 7) Map.empty =
     Inr \<lparr>messages_per_second = - 3, messages_per_minute = 7,
          second_window = [], minute_window = []\<rparr>"
  using init_stores_nonzero_limits [of "- 3" 7 Map.empty] by simp

text \<open>
  On a fresh limiter with a limit that is not positive, \<open>acquire\<close> does not wait: its
  first pass reads the head of an empty window.
\<close>

lemma acquire_nonpositive_limit_raises:
  assumes "second_window s = []" and "minute_window s = []"
    and "messages_per_second s \<le> 0 \<or> messages_per_minute s \<le> 0"
  shows "acquire (now # clock) s = Some (Inl IndexError, s)"
proof -
  from assms(1,2) have c: "clean_windows now s = s"
    by (simp add: clean_windows_def)
  from assms have "acquire_pass now s = (Raised IndexError, s)"
    by (auto simp: acquire_pass_def Let_def c compute_wait_def head_def
        per_second_ok_def per_minute_ok_def)
  then show ?thesis by simp
qed

subsection \<open>Reading the head of a window\<close>

text \<open>
  C10. With both limits at least one, a trimmed window that is not below its cap is not
  empty, so reading its head does not raise; neither the computation of the wait nor the
  pass raises.
\<close>

theorem head_access_never_faults:
  assumes "1 \<le> messages_per_second s" and "1 \<le> messages_per_minute s"
  shows "(\<not> per_second_ok (clean_windows now s) \<longrightarrow>
            second_window (clean_windows now s) \<noteq> [] \<and>
            head (second_window (clean_windows now s)) \<noteq> Inl IndexError) \<and>
         (\<not> per_minute_ok (clean_windows now s) \<longrightarrow>
            minute_window (clean_windows now s) \<noteq> [] \<and>
            head (minute_window (clean_windows now s)) \<noteq> Inl IndexError) \<and>
         (\<forall>e. compute_wait now (clean_windows now s) \<noteq> Inl e) \<and>
         (\<forall>e. fst (acquire_pass now s) \<noteq> Raised e)"
proof -
  let ?s = "clean_windows now s"
  from assms have l: "1 \<le> messages_per_second ?s" "1 \<le> messages_per_minute ?s" by simp_all
  from l(1) have a: "\<not> per_second_ok ?s \<longrightarrow>
      second_window ?s \<noteq> [] \<and> head (second_window ?s) \<noteq> Inl IndexError"
    by (cases "second_window ?s") (simp_all add: per_second_ok_def head_def)
  from l(2) have b: "\<not> per_minute_ok ?s \<longrightarrow>
      minute_window ?s \<noteq> [] \<and> head (minute_window ?s) \<noteq> Inl IndexError"
    by (cases "minute_window ?s") (simp_all add: per_minute_ok_def head_def)
  from compute_wait_defined [OF l, of now] have c: "\<forall>e. compute_wait now ?s \<noteq> Inl e"
    by auto
  from acquire_pass_no_raise [OF assms] have d: "\<forall>e. fst (acquire_pass now s) \<noteq> Raised e"
    by simp
  from a b c d show ?thesis by simp
qed

theorem head_access_never_faults_witness:
  "head (second_window (clean_windows (1 / 2)
      \<lparr>messages_per_second = 1, messages_per_minute = 1, second_window = [0],
       minute_window = [0]\<rparr>)) \<noteq> Inl IndexError \<and>
   fst (acquire_pass (1 / 2)
      \<lparr>messages_per_second = 1, messages_per_minute = 1, second_window = [0],
       minute_window = [0]\<rparr>) \<noteq> Raised IndexError"
  using head_access_never_faults
    [of "\<lparr>messages_per_second = 1, messages_per_minute = 1, second_window = [0],
       minute_window = [0]\<rparr>" "1 / 2"]
  by (simp add: clean_windows_def per_second_ok_def per_minute_ok_def)

end
